theory Spec2Isabelle
  imports Complex_Main "HOL-Library.Multiset" "HOL-Library.AList"
begin

section \<open>The quiz script (src/script.js) as a state machine\<close>

text \<open>
  The script keeps four variables (\<open>currentQuestions\<close>, \<open>currentQuestionIndex\<close>,
  \<open>score\<close>, \<open>answeredQuestions\<close>) and drives a page. Its functions are embedded
  below as functions on an explicit state. Arrays are objects of JavaScript: a variable
  holds a reference, and \<open>shuffleArray\<close> writes through the reference it is given. The
  arrays therefore live in a store, a list of arrays addressed by position; a fresh array
  is placed at the end of the store.

  Indices, the score and the parsed jump target are modelled as \<open>int\<close>; the indices
  and the score stay far below \<open>2^53\<close>, where the arithmetic of JavaScript is exact.
  The value of \<open>Math.random()\<close> and its product with \<open>i + 1\<close> are doubles, modelled
  by mantissa and exponent with the rounding of the product written out.

  Styling and text output (\<open>classList\<close>, \<open>textContent\<close>, \<open>className\<close>,
  \<open>innerHTML\<close>, \<open>jumpInput.max\<close>) is only ever written by the script and never
  read back, so it is left out. What the script does read back, or what decides whether
  a handler runs, is kept: the option buttons with their \<open>disabled\<close> flag and their
  click listener, the \<open>disabled\<close> flag of the previous and next buttons, and the text
  of the jump input.
\<close>

subsection \<open>The array store\<close>

type_synonym ref = nat

type_synonym 'a store = "'a list list"

text \<open>\<open>[...array]\<close>: a new array with the same elements, at a fresh reference.\<close>

definition spread_copy :: "ref \<Rightarrow> 'a store \<Rightarrow> ref \<times> 'a store" where
  "spread_copy r h = (length h, h @ [h ! r])"

subsection \<open>Doubles: Math.random(), the product, Math.floor (line 35)\<close>

text \<open>
  Line 35 is \<open>Math.floor(Math.random() * (i + 1))\<close>. \<open>Math.random()\<close> returns a
  double, and the product is the double nearest to the exact product, ties going to the
  even mantissa. A non-negative finite double is \<open>mantissa * 2 ^ exponent\<close> with a
  mantissa below \<open>2^53\<close> and an exponent from \<open>-1074\<close> to \<open>971\<close>; this form covers the
  subnormal numbers. \<open>double_value\<close> is the number a pair denotes.
\<close>

record double =
  mantissa :: nat
  exponent :: int

definition double_value :: "double \<Rightarrow> real" where
  "double_value d = real (mantissa d) * 2 powi exponent d"

definition is_double :: "double \<Rightarrow> bool" where
  "is_double d = (mantissa d < 2 ^ 53 \<and> - 1074 \<le> exponent d \<and> exponent d \<le> 971)"

text \<open>
  \<open>Math.random()\<close> is the environment's: \<open>rnd i\<close> is the double it returns in the
  iteration with loop index \<open>i\<close> (each index is visited once in a call). Its contract
  in ECMAScript is a double that is at least 0 and less than 1.
\<close>

definition random_contract :: "(nat \<Rightarrow> double) \<Rightarrow> bool" where
  "random_contract rnd = (\<forall>i. is_double (rnd i) \<and> double_value (rnd i) < 1)"

text \<open>The number of binary digits of a number.\<close>

fun bit_length :: "nat \<Rightarrow> nat" where
  "bit_length n = (if n = 0 then 0 else Suc (bit_length (n div 2)))"

text \<open>
  \<open>M / 2^k\<close> rounded to the nearest integer, a tie going to the even one.
\<close>

definition round_shift :: "nat \<Rightarrow> nat \<Rightarrow> nat" where
  "round_shift M k =
     (let q = M div 2 ^ k; r = M mod 2 ^ k; h = 2 ^ (k - 1)
      in if r < h then q else if h < r then q + 1 else if even q then q else q + 1)"

text \<open>
  The product of a double and \<open>i + 1\<close>. An array of JavaScript has fewer than \<open>2^32\<close>
  elements, so \<open>i + 1\<close> is exact and the product of a double below 1 with it stays far
  from overflow. The exact product is \<open>(mantissa * n) * 2 ^ exponent\<close>; it is a double
  when its mantissa has at most 53 digits, and otherwise the mantissa is rounded to its
  leading 53 digits. (A carry may leave the mantissa at \<open>2^53\<close>, which denotes the same
  number as \<open>2^52\<close> one exponent higher.)
\<close>

definition double_times :: "double \<Rightarrow> nat \<Rightarrow> double" where
  "double_times d n =
     (let M = mantissa d * n in
      if M < 2 ^ 53 then \<lparr>mantissa = M, exponent = exponent d\<rparr>
      else let k = bit_length M - 53
           in \<lparr>mantissa = round_shift M k, exponent = exponent d + int k\<rparr>)"

text \<open>\<open>Math.floor\<close> of a non-negative double.\<close>

definition double_floor :: "double \<Rightarrow> nat" where
  "double_floor d =
     (if 0 \<le> exponent d then mantissa d * 2 ^ nat (exponent d)
      else mantissa d div 2 ^ nat (- exponent d))"

text \<open>The draw \<open>j\<close> of line 35.\<close>

definition random_index :: "(nat \<Rightarrow> double) \<Rightarrow> nat \<Rightarrow> nat" where
  "random_index rnd i = double_floor (double_times (rnd i) (i + 1))"

subsection \<open>shuffleArray (lines 31-40)\<close>

text \<open>
  The loop \<open>for (let i = array.length - 1; i > 0; i--)\<close>, entered at index \<open>i\<close>. The
  destructuring assignment reads \<open>array[j]\<close> and \<open>array[i]\<close> first and then writes
  \<open>array[i]\<close>, then \<open>array[j]\<close>. On an empty array the script starts at \<open>-1\<close> and the
  model at \<open>0\<close>; the test \<open>i > 0\<close> fails at both.
\<close>

fun shuffle_loop :: "(nat \<Rightarrow> double) \<Rightarrow> ref \<Rightarrow> nat \<Rightarrow> 'a store \<Rightarrow> 'a store" where
  "shuffle_loop rnd array 0 h = h"
| "shuffle_loop rnd array (Suc k) h =
     (let i = Suc k;
          j = random_index rnd i;
          aj = h ! array ! j;
          ai = h ! array ! i
      in shuffle_loop rnd array k (h[array := (h ! array)[i := aj, j := ai]]))"

text \<open>The function returns the reference it was given (\<open>return array\<close>).\<close>

definition shuffleArray :: "(nat \<Rightarrow> double) \<Rightarrow> ref \<Rightarrow> 'a store \<Rightarrow> ref \<times> 'a store" where
  "shuffleArray rnd array h = (array, shuffle_loop rnd array (length (h ! array) - 1) h)"

subsection \<open>Questions, answers, buttons, the state\<close>

text \<open>
  A question of questions.js is \<open>{ q, o, a }\<close>: its text, its options and the index of
  the right option. \<open>answeredQuestions\<close> is a \<open>Map\<close> from a question's index to
  \<open>{ selected, correct }\<close>. A \<open>Map\<close> keeps its keys in insertion order and \<open>set\<close>
  on a key it holds replaces the value in place: an association list under
  \<open>AList.update\<close>.
\<close>

record question =
  question_q :: string
  question_o :: "string list"
  question_a :: int

record answer =
  selected :: int
  correct :: int

text \<open>
  An option button: its \<open>disabled\<close> flag, and the arguments \<open>(i, question.a)\<close> its
  click listener passes to \<open>handleOptionClick\<close>, when \<open>loadQuestion\<close> gave it one.
\<close>

record button =
  disabled :: bool
  listener :: "(int \<times> int) option"

text \<open>
  The one message the script shows, by \<open>alert\<close>, in \<open>jumpToQuestion\<close>: a request for
  a number between the two numbers its text names, the literal \<open>1\<close> and
  \<open>currentQuestions.length\<close>. (The text itself is Arabic and is not reproduced.)
\<close>

datatype alert = EnterNumberBetween int int

record state =
  store :: "question store"
  allQuestions :: ref
  currentQuestions :: ref
  currentQuestionIndex :: int
  score :: int
  answeredQuestions :: "(int \<times> answer) list"
  optionsContainer :: "button list"
  prevBtn_disabled :: bool
  nextBtn_disabled :: bool
  jumpInput_value :: string
  alerts :: "alert list"

text \<open>The array that \<open>currentQuestions\<close> refers to, and the bank.\<close>

definition questions :: "state \<Rightarrow> question list" where
  "questions st = store st ! currentQuestions st"

definition bank :: "state \<Rightarrow> question list" where
  "bank st = store st ! allQuestions st"

text \<open>
  The recount of the specification: the number of entries of \<open>answeredQuestions\<close> whose
  \<open>selected\<close> equals their \<open>correct\<close>.
\<close>

definition correct_count :: "(int \<times> answer) list \<Rightarrow> int" where
  "correct_count m = int (length (filter (\<lambda>kv. selected (snd kv) = correct (snd kv)) m))"

subsection \<open>loadQuestion (lines 66-116)\<close>

text \<open>The body of \<open>question.o.forEach((option, i) => ...)\<close>, for the option at \<open>i\<close>.\<close>

definition option_button :: "answer option \<Rightarrow> question \<Rightarrow> int \<Rightarrow> button" where
  "option_button questionData question i =
     (case questionData of
        Some d \<Rightarrow> \<lparr>disabled = True, listener = None\<rparr>
      | None \<Rightarrow> \<lparr>disabled = False, listener = Some (i, question_a question)\<rparr>)"

definition loadQuestion :: "int \<Rightarrow> state \<Rightarrow> state" where
  "loadQuestion index st =
     (if index < 0 \<or> index \<ge> int (length (questions st)) then st
      else
        let question = questions st ! nat index;
            questionData = map_of (answeredQuestions st) index
        in st\<lparr>optionsContainer :=
                  map (option_button questionData question)
                    (map int [0..<length (question_o question)]),
                prevBtn_disabled := (index = 0),
                nextBtn_disabled := (index = int (length (questions st)) - 1)\<rparr>)"

subsection \<open>startQuiz (lines 45-60)\<close>

definition startQuiz :: "(nat \<Rightarrow> double) \<Rightarrow> state \<Rightarrow> state" where
  "startQuiz rnd st =
     (let (c, h1) = spread_copy (allQuestions st) (store st);
          (r, h2) = shuffleArray rnd c h1;
          st1 = st\<lparr>store := h2, currentQuestions := r,
                    currentQuestionIndex := 0, score := 0, answeredQuestions := []\<rparr>
      in loadQuestion (currentQuestionIndex st1) st1)"

subsection \<open>handleOptionClick (lines 124-154)\<close>

text \<open>
  The \<open>button\<close> argument is used for styling only. The function stores the answer under
  the current index, counts it when it is right, and disables every option button.
\<close>

definition handleOptionClick :: "int \<Rightarrow> int \<Rightarrow> state \<Rightarrow> state" where
  "handleOptionClick selectedIndex correctIndex st =
     st\<lparr>answeredQuestions :=
          AList.update (currentQuestionIndex st)
            \<lparr>selected = selectedIndex, correct = correctIndex\<rparr> (answeredQuestions st),
        score := (if selectedIndex = correctIndex then score st + 1 else score st),
        optionsContainer := map (\<lambda>btn. btn\<lparr>disabled := True\<rparr>) (optionsContainer st)\<rparr>"

subsection \<open>nextQuestion, prevQuestion (lines 166-181)\<close>

definition nextQuestion :: "state \<Rightarrow> state" where
  "nextQuestion st =
     (if currentQuestionIndex st < int (length (questions st)) - 1
      then let st1 = st\<lparr>currentQuestionIndex := currentQuestionIndex st + 1\<rparr>
           in loadQuestion (currentQuestionIndex st1) st1
      else st)"

definition prevQuestion :: "state \<Rightarrow> state" where
  "prevQuestion st =
     (if currentQuestionIndex st > 0
      then let st1 = st\<lparr>currentQuestionIndex := currentQuestionIndex st - 1\<rparr>
           in loadQuestion (currentQuestionIndex st1) st1
      else st)"

subsection \<open>parseInt and jumpToQuestion (lines 186-196)\<close>

text \<open>
  \<open>parseInt\<close> of ECMAScript with no radix argument, on a text whose code units are
  below 256 (a \<open>char\<close> is one code unit; the white space of ECMAScript in that range is
  tab, line feed, vertical tab, form feed, carriage return, space and the no-break space
  U+00A0): leading white space is dropped, then a sign, then a \<open>0x\<close> or \<open>0X\<close> prefix (which
  makes the radix 16, otherwise it is 10); the value is that of the longest run of digits
  of the radix that follows, and \<open>NaN\<close> (here \<open>None\<close>) when the run is empty. Whatever
  follows the run is ignored. The model keeps the exact integer where JavaScript rounds a
  number beyond \<open>2^53\<close>; rounding is monotone and leaves the smaller integers as they
  are, so the comparisons of \<open>jumpToQuestion\<close> with 1 and with the length come out the
  same.
\<close>

definition StrWhiteSpaceChar :: "char \<Rightarrow> bool" where
  "StrWhiteSpaceChar c =
     (c \<in> set [CHR 0x09, CHR 0x0A, CHR 0x0B, CHR 0x0C, CHR 0x0D, CHR 0x20, CHR 0xA0])"

definition digit_value :: "char \<Rightarrow> nat option" where
  "digit_value c =
     (let n = (of_char c :: nat) in
      if 48 \<le> n \<and> n \<le> 57 then Some (n - 48)
      else if 97 \<le> n \<and> n \<le> 122 then Some (n - 87)
      else if 65 \<le> n \<and> n \<le> 90 then Some (n - 55)
      else None)"

definition radix_digit :: "nat \<Rightarrow> char \<Rightarrow> bool" where
  "radix_digit R c = (case digit_value c of None \<Rightarrow> False | Some d \<Rightarrow> d < R)"

definition digits_value :: "nat \<Rightarrow> string \<Rightarrow> nat" where
  "digits_value R Z = foldl (\<lambda>acc c. acc * R + the (digit_value c)) 0 Z"

definition parseInt :: "string \<Rightarrow> int option" where
  "parseInt inputString =
     (let S1 = dropWhile StrWhiteSpaceChar inputString;
          sign = (if S1 \<noteq> [] \<and> hd S1 = CHR ''-'' then - 1 else 1 :: int);
          S2 = (if S1 \<noteq> [] \<and> (hd S1 = CHR ''+'' \<or> hd S1 = CHR ''-'') then tl S1 else S1);
          hex = (length S2 \<ge> 2 \<and> (take 2 S2 = ''0x'' \<or> take 2 S2 = ''0X''));
          R = (if hex then 16 else 10);
          S3 = (if hex then drop 2 S2 else S2);
          Z = takeWhile (radix_digit R) S3
      in if Z = [] then None else Some (sign * int (digits_value R Z)))"

text \<open>
  A comparison with \<open>NaN\<close> is false, so \<open>NaN\<close> takes the \<open>else\<close> branch, as a number
  out of range does.
\<close>

definition jumpToQuestion :: "state \<Rightarrow> state" where
  "jumpToQuestion st =
     (let num = parseInt (jumpInput_value st) in
      if (case num of None \<Rightarrow> False
          | Some n \<Rightarrow> n \<ge> 1 \<and> n \<le> int (length (questions st)))
      then let st1 = st\<lparr>currentQuestionIndex := the num - 1\<rparr>;
               st2 = loadQuestion (currentQuestionIndex st1) st1
           in st2\<lparr>jumpInput_value := ''''\<rparr>
      else st\<lparr>alerts := alerts st @ [EnterNumberBetween 1 (int (length (questions st)))]\<rparr>)"

subsection \<open>The events of the page (lines 198-214)\<close>

text \<open>
  A click on the option button at position \<open>k\<close>. The browser delivers no click to a
  disabled button, and there is nothing to click at a position that holds no button.
\<close>

definition click_option :: "int \<Rightarrow> state \<Rightarrow> state" where
  "click_option k st =
     (if 0 \<le> k \<and> k < int (length (optionsContainer st))
      then let btn = optionsContainer st ! nat k in
           if disabled btn then st
           else (case listener btn of
                   None \<Rightarrow> st
                 | Some (i, a) \<Rightarrow> handleOptionClick i a st)
      else st)"

definition click_next :: "state \<Rightarrow> state" where
  "click_next st = (if nextBtn_disabled st then st else nextQuestion st)"

definition click_prev :: "state \<Rightarrow> state" where
  "click_prev st = (if prevBtn_disabled st then st else prevQuestion st)"

text \<open>The \<open>keyup\<close> listener of the jump input.\<close>

definition keyup_jump :: "string \<Rightarrow> state \<Rightarrow> state" where
  "keyup_jump key st = (if key = ''Enter'' then jumpToQuestion st else st)"

text \<open>
  The state when the script has run its declarations (lines 6-12) and before it calls
  \<open>startQuiz\<close> (line 214): the bank of questions.js at reference 0, the empty array of
  line 6 at reference 1. The page's own mark-up is not among the sources; it is taken to
  hold no option button, enabled previous and next buttons and an empty jump input.
\<close>

definition initial :: "question list \<Rightarrow> state" where
  "initial qs =
     \<lparr>store = [qs, []], allQuestions = 0, currentQuestions = 1,
      currentQuestionIndex = 0, score = 0, answeredQuestions = [],
      optionsContainer = [], prevBtn_disabled = False, nextBtn_disabled = False,
      jumpInput_value = '''', alerts = []\<rparr>"

text \<open>
  The states the page can be in: the script starts the quiz when the page has loaded,
  and from then on the user clicks the shuffle button, an option, next, previous or
  jump, types into the jump input, or releases a key in it.
\<close>

inductive reachable :: "state \<Rightarrow> bool" where
  loaded: "random_contract rnd \<Longrightarrow> reachable (startQuiz rnd (initial qs))"
| shuffle: "reachable st \<Longrightarrow> random_contract rnd \<Longrightarrow> reachable (startQuiz rnd st)"
| option: "reachable st \<Longrightarrow> reachable (click_option k st)"
| go_next: "reachable st \<Longrightarrow> reachable (click_next st)"
| go_prev: "reachable st \<Longrightarrow> reachable (click_prev st)"
| jump: "reachable st \<Longrightarrow> reachable (jumpToQuestion st)"
| typed: "reachable st \<Longrightarrow> reachable (st\<lparr>jumpInput_value := s\<rparr>)"
| keyup: "reachable st \<Longrightarrow> reachable (keyup_jump key st)"

subsection \<open>The invariant of the session\<close>

text \<open>
  \<open>in_range\<close>: the current index points at a question. \<open>current\<close>: that question.
  \<open>session_inv\<close> collects what every event of the page keeps true: the score is the
  recount; an option button that can still be clicked exists only while the current
  question has no answer; the index is 0 or points at a question; and the option buttons
  are those of the current question, each listener passing its own position and the
  question's right option.
\<close>

definition in_range :: "state \<Rightarrow> bool" where
  "in_range st = (0 \<le> currentQuestionIndex st \<and> currentQuestionIndex st < int (length (questions st)))"

definition current :: "state \<Rightarrow> question" where
  "current st = questions st ! nat (currentQuestionIndex st)"

definition session_inv :: "state \<Rightarrow> bool" where
  "session_inv st =
     (score st = correct_count (answeredQuestions st)
      \<and> (\<forall>btn \<in> set (optionsContainer st).
            \<not> disabled btn \<and> listener btn \<noteq> None \<longrightarrow>
            map_of (answeredQuestions st) (currentQuestionIndex st) = None)
      \<and> (currentQuestionIndex st = 0 \<or> in_range st)
      \<and> (in_range st \<longrightarrow>
            length (optionsContainer st) = length (question_o (current st))
            \<and> (\<forall>k < length (optionsContainer st). \<forall>i a.
                  listener (optionsContainer st ! k) = Some (i, a) \<longrightarrow>
                  i = int k \<and> a = question_a (current st))))"

subsection \<open>A concrete quiz\<close>

text \<open>
  The bank of the specification's scenario: three questions whose right options are 1, 0
  and 2. With a generator that always returns 0 the shuffle yields the order Q1, Q2, Q0.
\<close>

definition Q0 :: question where
  "Q0 = \<lparr>question_q = ''Q0'', question_o = [''a'', ''b'', ''c''], question_a = 1\<rparr>"

definition Q1 :: question where
  "Q1 = \<lparr>question_q = ''Q1'', question_o = [''a'', ''b'', ''c''], question_a = 0\<rparr>"

definition Q2 :: question where
  "Q2 = \<lparr>question_q = ''Q2'', question_o = [''a'', ''b'', ''c''], question_a = 2\<rparr>"

definition zero_rnd :: "nat \<Rightarrow> double" where
  "zero_rnd i = \<lparr>mantissa = 0, exponent = 0\<rparr>"

text \<open>
  A second generator: it returns \<open>0.3333333333333333\<close> (the double nearest to a third,
  \<open>6004799503160661 * 2^-54\<close>) at loop index 2 and \<open>0.5\<close> elsewhere. Three times the
  former is \<open>1 - 2^-54\<close> exactly and rounds to the double \<open>1\<close>, so the draw at index 2
  is 1, where the floor of the exact product would be 0. With it the shuffle of three
  elements swaps the last two.
\<close>

definition third_rnd :: "nat \<Rightarrow> double" where
  "third_rnd i =
     (if i = 2 then \<lparr>mantissa = 6004799503160661, exponent = - 54\<rparr>
      else \<lparr>mantissa = 1, exponent = - 1\<rparr>)"

definition quiz3 :: state where
  "quiz3 = startQuiz zero_rnd (initial [Q0, Q1, Q2])"

text \<open>The same quiz after a click on the first option, which is the right one.\<close>

definition answered1 :: state where
  "answered1 = click_option 0 quiz3"

text \<open>The concrete quiz moved forward twice, to its last question.\<close>

definition last3 :: state where
  "last3 = nextQuestion (nextQuestion quiz3)"

section \<open>Verification\<close>

subsection \<open>Facts about the doubles and the shuffle\<close>

text \<open>
  \<open>double_floor\<close> is the floor of the number denoted; \<open>double_times\<close> is exact when the
  exact product is a double and otherwise within half a unit of the last place of it; and
  the draw never exceeds \<open>i\<close>, although the product is rounded.
\<close>

declare bit_length.simps [simp del]

lemma bit_length_0: "bit_length 0 = 0"
  by (simp add: bit_length.simps)

lemma bit_length_1: "bit_length (Suc 0) = Suc 0"
  by (simp add: bit_length.simps [of "Suc 0"] bit_length_0)

lemma bit_length_bounds:
  "0 < n \<Longrightarrow> 2 ^ (bit_length n - 1) \<le> n \<and> n < 2 ^ bit_length n"
proof (induction n rule: bit_length.induct)
  case (1 n)
  show ?case
  proof (cases "n div 2 = 0")
    case True
    with "1.prems" have "n = 1"
      by (auto simp: div_eq_0_iff)
    then show ?thesis
      by (simp add: bit_length_1)
  next
    case False
    with "1.IH" "1.prems" have ih: "2 ^ (bit_length (n div 2) - 1) \<le> n div 2"
        "n div 2 < 2 ^ bit_length (n div 2)"
      by simp_all
    from False have pos: "0 < bit_length (n div 2)"
      by (simp add: bit_length.simps [of "n div 2"])
    have b: "bit_length n = Suc (bit_length (n div 2))"
      using "1.prems" by (simp add: bit_length.simps [of n])
    from pos have "(2::nat) ^ (bit_length n - 1) = 2 * 2 ^ (bit_length (n div 2) - 1)"
      unfolding b by (cases "bit_length (n div 2)") simp_all
    also from ih(1) have "\<dots> \<le> 2 * (n div 2)"
      by simp
    also have "\<dots> \<le> n"
      by simp
    finally have lo: "2 ^ (bit_length n - 1) \<le> n" .
    from ih(2) have "n < 2 * 2 ^ bit_length (n div 2)"
      by simp
    then have hi: "n < 2 ^ bit_length n"
      unfolding b by simp
    from lo hi show ?thesis ..
  qed
qed

lemma round_shift_upper:
  assumes "0 < k"
  shows "round_shift M k * 2 ^ k \<le> M + 2 ^ (k - 1)"
proof -
  define q where "q = M div 2 ^ k"
  define r where "r = M mod 2 ^ k"
  define h :: nat where "h = 2 ^ (k - 1)"
  have M: "M = q * 2 ^ k + r"
    unfolding q_def r_def by (rule div_mult_mod_eq [symmetric])
  have hk: "(2::nat) ^ k = 2 * h"
    using assms unfolding h_def by (cases k) simp_all
  have "round_shift M k \<le> (if r < h then q else q + 1)"
    by (simp add: round_shift_def Let_def q_def r_def h_def)
  then have "round_shift M k * 2 ^ k \<le> (if r < h then q else q + 1) * 2 ^ k"
    by (rule mult_le_mono1)
  also have "\<dots> \<le> M + h"
    unfolding M hk by (simp add: algebra_simps)
  finally show ?thesis
    by (simp add: h_def)
qed

lemma value_nonneg_exp:
  "0 \<le> exponent d \<Longrightarrow> double_value d = real (mantissa d * 2 ^ nat (exponent d))"
  by (simp add: double_value_def power_int_def)

lemma value_neg_exp:
  "\<not> 0 \<le> exponent d \<Longrightarrow> double_value d = real (mantissa d) / real (2 ^ nat (- exponent d))"
  by (simp add: double_value_def power_int_def power_inverse field_simps)

lemma below_one_iff:
  "double_value d < 1 \<longleftrightarrow>
     (if 0 \<le> exponent d then mantissa d = 0 else mantissa d < 2 ^ nat (- exponent d))"
proof (cases "0 \<le> exponent d")
  case True
  then have v: "double_value d = real (mantissa d * 2 ^ nat (exponent d))"
    by (rule value_nonneg_exp)
  have "real (mantissa d * 2 ^ nat (exponent d)) < 1 \<longleftrightarrow> mantissa d * 2 ^ nat (exponent d) < 1"
    by (metis of_nat_1 of_nat_less_iff)
  also have "\<dots> \<longleftrightarrow> mantissa d = 0"
    by simp
  finally show ?thesis
    using True by (simp only: v if_True)
next
  case False
  then have v: "double_value d = real (mantissa d) / real (2 ^ nat (- exponent d))"
    by (rule value_neg_exp)
  have "real (mantissa d) / real (2 ^ nat (- exponent d)) < 1
      \<longleftrightarrow> real (mantissa d) < real (2 ^ nat (- exponent d))"
    by (simp add: divide_less_eq)
  also have "\<dots> \<longleftrightarrow> mantissa d < 2 ^ nat (- exponent d)"
    by (rule of_nat_less_iff)
  finally show ?thesis
    using False by (simp only: v if_False)
qed

lemma double_floor_value: "double_floor d = nat \<lfloor>double_value d\<rfloor>"
proof (cases "0 \<le> exponent d")
  case True
  then have "double_value d = real (mantissa d * 2 ^ nat (exponent d))"
    by (rule value_nonneg_exp)
  then have "nat \<lfloor>double_value d\<rfloor> = mantissa d * 2 ^ nat (exponent d)"
    by (simp only: floor_of_nat nat_int)
  with True show ?thesis
    by (simp add: double_floor_def)
next
  case False
  then have "double_value d = real (mantissa d) / real (2 ^ nat (- exponent d))"
    by (rule value_neg_exp)
  then have "nat \<lfloor>double_value d\<rfloor> = mantissa d div 2 ^ nat (- exponent d)"
    by (simp only: floor_divide_of_nat_eq nat_int)
  with False show ?thesis
    by (simp add: double_floor_def)
qed

lemma double_floor_less:
  assumes "mant * 2 ^ k < n * 2 ^ t"
  shows "double_floor \<lparr>mantissa = mant, exponent = int k - int t\<rparr> < n"
proof (cases "t \<le> k")
  case True
  then have "(2::nat) ^ k = 2 ^ (k - t) * 2 ^ t"
    by (simp add: power_add [symmetric])
  with assms have "(mant * 2 ^ (k - t)) * 2 ^ t < n * 2 ^ t"
    by (simp add: mult.assoc)
  then have "mant * 2 ^ (k - t) < n"
    by simp
  moreover from True have "nat (int k - int t) = k - t"
    by simp
  ultimately show ?thesis
    using True by (simp add: double_floor_def)
next
  case False
  then have "(2::nat) ^ t = 2 ^ (t - k) * 2 ^ k"
    by (simp add: power_add [symmetric])
  with assms have "mant * 2 ^ k < (n * 2 ^ (t - k)) * 2 ^ k"
    by (simp add: mult.assoc)
  then have "mant < n * 2 ^ (t - k)"
    by simp
  then have "mant div 2 ^ (t - k) < n"
    by (simp add: less_mult_imp_div_less)
  moreover from False have "nat (- (int k - int t)) = t - k"
    by simp
  ultimately show ?thesis
    using False by (simp add: double_floor_def)
qed

lemma rounded_product_less:
  assumes m: "m < 2 ^ t" "m < 2 ^ 53" and big: "2 ^ 53 \<le> m * n"
  shows "round_shift (m * n) (bit_length (m * n) - 53) * 2 ^ (bit_length (m * n) - 53) < n * 2 ^ t"
proof -
  define M where "M = m * n"
  define k where "k = bit_length M - 53"
  from big have Mpos: "0 < M"
    unfolding M_def by (metis less_le_trans zero_less_numeral zero_less_power)
  from bit_length_bounds [OF Mpos] have lo: "2 ^ (bit_length M - 1) \<le> M" and hi: "M < 2 ^ bit_length M"
    by simp_all
  from big hi have "(2::nat) ^ 53 < 2 ^ bit_length M"
    unfolding M_def by (rule le_less_trans)
  then have L: "53 < bit_length M"
    by (rule power_less_imp_less_exp [rotated]) simp
  then have kpos: "0 < k" and Lk: "bit_length M - 1 = (k - 1) + 53"
    unfolding k_def by simp_all
  have npos: "0 < n"
    using Mpos unfolding M_def by (cases n) simp_all
  have "M < 2 ^ 53 * n"
    unfolding M_def using m(2) npos by simp
  with lo have "(2::nat) ^ ((k - 1) + 53) < 2 ^ 53 * n"
    unfolding Lk by (rule le_less_trans)
  then have half: "2 ^ (k - 1) < n"
    by (simp add: power_add)
  from m(1) have "Suc m \<le> 2 ^ t"
    by simp
  then have "Suc m * n \<le> 2 ^ t * n"
    by (rule mult_le_mono1)
  then have room: "M + n \<le> n * 2 ^ t"
    unfolding M_def by (simp add: mult.commute)
  have "round_shift M k * 2 ^ k \<le> M + 2 ^ (k - 1)"
    by (rule round_shift_upper [OF kpos])
  also from half have "\<dots> < M + n"
    by simp
  also note room
  finally show ?thesis
    unfolding M_def k_def .
qed

lemma random_index_le:
  assumes "random_contract rnd"
  shows "random_index rnd i \<le> i"
proof -
  define d where "d = rnd i"
  define m where "m = mantissa d"
  define e where "e = exponent d"
  define n where "n = i + 1"
  from assms have dbl: "m < 2 ^ 53" and one: "double_value d < 1"
    by (simp_all add: random_contract_def is_double_def d_def m_def)
  have "double_floor (double_times d n) < n"
  proof (cases "0 \<le> e")
    case True
    with one have "m = 0"
      by (simp add: below_one_iff e_def m_def)
    then show ?thesis
      by (simp add: double_times_def double_floor_def m_def [symmetric] n_def)
  next
    case False
    define t where "t = nat (- e)"
    from False one have mt: "m < 2 ^ t"
      by (simp add: below_one_iff e_def m_def t_def)
    from False have e: "e = int 0 - int t" "\<And>k. e + int k = int k - int t"
      by (simp_all add: t_def)
    show ?thesis
    proof (cases "m * n < 2 ^ 53")
      case True
      have "0 < n"
        by (simp add: n_def)
      with mt have "m * n < 2 ^ t * n"
        by (rule mult_less_mono1)
      then have "(m * n) * 2 ^ 0 < n * 2 ^ t"
        by (simp add: mult.commute)
      then have "double_floor \<lparr>mantissa = m * n, exponent = int 0 - int t\<rparr> < n"
        by (rule double_floor_less)
      with True show ?thesis
        by (simp add: double_times_def m_def [symmetric] e_def [symmetric] e(1))
    next
      case False
      then have big: "2 ^ 53 \<le> m * n"
        by simp
      have "double_floor \<lparr>mantissa = round_shift (m * n) (bit_length (m * n) - 53),
          exponent = int (bit_length (m * n) - 53) - int t\<rparr> < n"
        by (rule double_floor_less [OF rounded_product_less [OF mt dbl big]])
      with False show ?thesis
        by (simp add: double_times_def Let_def m_def [symmetric] e_def [symmetric] e(2))
    qed
  qed
  then show ?thesis
    by (simp add: random_index_def d_def n_def)
qed

lemma double_times_exact:
  assumes "mantissa d * n < 2 ^ 53"
  shows "double_value (double_times d n) = double_value d * real n"
  using assms by (simp add: double_times_def double_value_def)

lemma round_shift_lower:
  "M \<le> round_shift M k * 2 ^ k + 2 ^ (k - 1)"
proof -
  define q where "q = M div 2 ^ k"
  define r where "r = M mod 2 ^ k"
  define h :: nat where "h = 2 ^ (k - 1)"
  have M: "M = q * 2 ^ k + r"
    unfolding q_def r_def by (rule div_mult_mod_eq [symmetric])
  have r: "r < 2 ^ k"
    unfolding r_def by simp
  have "(if r \<le> h then q else q + 1) \<le> round_shift M k"
    by (simp add: round_shift_def Let_def q_def r_def h_def)
  then have "(if r \<le> h then q else q + 1) * 2 ^ k \<le> round_shift M k * 2 ^ k"
    by (rule mult_le_mono1)
  moreover have "M \<le> (if r \<le> h then q else q + 1) * 2 ^ k + h"
    unfolding M using r by (simp add: algebra_simps)
  ultimately show ?thesis
    unfolding h_def by linarith
qed

lemma double_times_nearest:
  assumes "\<not> mantissa d * n < 2 ^ 53"
  shows "\<bar>double_value (double_times d n) - double_value d * real n\<bar>
           \<le> 2 powi exponent (double_times d n) / 2"
proof -
  define M where "M = mantissa d * n"
  define k where "k = bit_length M - 53"
  define q where "q = round_shift M k"
  define e where "e = exponent d"
  from assms have big: "2 ^ 53 \<le> M"
    by (simp add: M_def)
  then have Mpos: "0 < M"
    by (metis less_le_trans zero_less_numeral zero_less_power)
  from bit_length_bounds [OF Mpos] have "M < 2 ^ bit_length M"
    by simp
  with big have "(2::nat) ^ 53 < 2 ^ bit_length M"
    by (rule le_less_trans)
  then have "53 < bit_length M"
    by (rule power_less_imp_less_exp [rotated]) simp
  then have kpos: "0 < k"
    by (simp add: k_def)
  have t: "double_times d n = \<lparr>mantissa = q, exponent = e + int k\<rparr>"
    using assms by (simp add: double_times_def Let_def M_def k_def q_def e_def)
  have p: "(2::real) powi (e + int k) = 2 powi e * 2 ^ k"
    by (simp add: power_int_add)
  have hk: "(2::real) ^ k / 2 = 2 ^ (k - 1)"
    using kpos by (cases k) simp_all
  have up: "real (q * 2 ^ k) \<le> real (M + 2 ^ (k - 1))"
    unfolding q_def by (rule of_nat_mono [OF round_shift_upper [OF kpos]])
  have lo: "real M \<le> real (q * 2 ^ k + 2 ^ (k - 1))"
    unfolding q_def by (rule of_nat_mono [OF round_shift_lower])
  from up lo have "\<bar>real q * 2 ^ k - real M\<bar> \<le> 2 ^ (k - 1)"
    by simp
  then have bound: "2 powi e * \<bar>real q * 2 ^ k - real M\<bar> \<le> 2 powi e * 2 ^ (k - 1)"
    by (intro mult_left_mono) simp_all
  have dv: "double_value d = real (mantissa d) * 2 powi e"
    by (simp add: double_value_def e_def)
  have diff: "double_value (double_times d n) - double_value d * real n
      = 2 powi e * (real q * 2 ^ k - real M)"
    unfolding t dv by (simp add: double_value_def p M_def algebra_simps)
  have ulp: "(2::real) powi exponent (double_times d n) / 2 = 2 powi e * 2 ^ (k - 1)"
    unfolding t using hk by (simp add: p)
  from bound show ?thesis
    unfolding diff ulp by (simp add: abs_mult)
qed

lemma random_index_exact:
  assumes "mantissa (rnd i) * (i + 1) < 2 ^ 53"
  shows "random_index rnd i = nat \<lfloor>double_value (rnd i) * (real i + 1)\<rfloor>"
proof -
  have "double_value (double_times (rnd i) (i + 1)) = double_value (rnd i) * real (i + 1)"
    by (rule double_times_exact [OF assms])
  then show ?thesis
    by (simp add: random_index_def double_floor_value add.commute)
qed

lemma shuffle_loop_length: "length (shuffle_loop rnd array n h) = length h"
  by (induction n arbitrary: h) (simp_all add: Let_def)

lemma shuffle_loop_other:
  "b \<noteq> array \<Longrightarrow> shuffle_loop rnd array n h ! b = h ! b"
  by (induction n arbitrary: h) (simp_all add: Let_def)

lemma shuffle_loop_mset:
  assumes "random_contract rnd" and "array < length h" and "n < length (h ! array)"
  shows "mset (shuffle_loop rnd array n h ! array) = mset (h ! array)"
  using assms(2,3)
proof (induction n arbitrary: h)
  case 0
  then show ?case by simp
next
  case (Suc k)
  let ?xs = "h ! array"
  let ?j = "random_index rnd (Suc k)"
  let ?ys = "?xs[Suc k := ?xs ! ?j, ?j := ?xs ! Suc k]"
  have j: "?j < length ?xs"
    using random_index_le [OF assms(1), of "Suc k"] Suc.prems(2) by simp
  have swap: "mset ?ys = mset ?xs"
    using mset_swap [OF j Suc.prems(2)] by simp
  have "mset (shuffle_loop rnd array k (h[array := ?ys]) ! array) = mset (h[array := ?ys] ! array)"
    using Suc.prems by (intro Suc.IH) simp_all
  then show ?case
    using Suc.prems(1) swap by (simp add: Let_def)
qed

lemma shuffle_whole_mset:
  assumes "random_contract rnd" and "array < length h"
  shows "mset (shuffle_loop rnd array (length (h ! array) - 1) h ! array) = mset (h ! array)"
proof (cases "h ! array = []")
  case True
  then show ?thesis by simp
next
  case False
  then have "length (h ! array) - 1 < length (h ! array)"
    by (cases "h ! array") simp_all
  then show ?thesis
    by (rule shuffle_loop_mset [OF assms])
qed

subsection \<open>The invariant holds in every reachable state\<close>

lemma correct_count_Nil: "correct_count [] = 0"
  by (simp add: correct_count_def)

lemma correct_count_snoc:
  "correct_count (m @ [(k, v)]) = correct_count m + (if selected v = correct v then 1 else 0)"
  by (simp add: correct_count_def)

lemma update_fresh: "map_of m k = None \<Longrightarrow> AList.update k v m = m @ [(k, v)]"
  by (induction m) (auto split: if_splits)

lemma loadQuestion_fields:
  "score (loadQuestion i st) = score st"
  "answeredQuestions (loadQuestion i st) = answeredQuestions st"
  "currentQuestionIndex (loadQuestion i st) = currentQuestionIndex st"
  "store (loadQuestion i st) = store st"
  "currentQuestions (loadQuestion i st) = currentQuestions st"
  "allQuestions (loadQuestion i st) = allQuestions st"
  "alerts (loadQuestion i st) = alerts st"
  "jumpInput_value (loadQuestion i st) = jumpInput_value st"
  by (simp_all add: loadQuestion_def Let_def)

lemma loadQuestion_questions: "questions (loadQuestion i st) = questions st"
  by (simp add: questions_def loadQuestion_fields)

lemma loadQuestion_out: "\<not> in_range st \<Longrightarrow> loadQuestion (currentQuestionIndex st) st = st"
  by (auto simp: loadQuestion_def in_range_def)

lemma loadQuestion_options:
  "in_range st \<Longrightarrow>
   optionsContainer (loadQuestion (currentQuestionIndex st) st) =
     map (option_button (map_of (answeredQuestions st) (currentQuestionIndex st)) (current st))
       (map int [0..<length (question_o (current st))])"
  by (simp add: loadQuestion_def in_range_def current_def Let_def)

lemma loadQuestion_inv:
  assumes "in_range st" and "score st = correct_count (answeredQuestions st)"
  shows "session_inv (loadQuestion (currentQuestionIndex st) st)"
proof -
  let ?st' = "loadQuestion (currentQuestionIndex st) st"
  have r: "in_range ?st'"
    using assms(1) by (simp add: in_range_def loadQuestion_fields loadQuestion_questions)
  have c: "current ?st' = current st"
    by (simp add: current_def loadQuestion_fields loadQuestion_questions)
  have o: "optionsContainer ?st' =
     map (option_button (map_of (answeredQuestions st) (currentQuestionIndex st)) (current st))
       (map int [0..<length (question_o (current st))])"
    by (rule loadQuestion_options [OF assms(1)])
  have i2: "\<forall>btn \<in> set (optionsContainer ?st').
            \<not> disabled btn \<and> listener btn \<noteq> None \<longrightarrow>
            map_of (answeredQuestions ?st') (currentQuestionIndex ?st') = None"
    unfolding o by (auto simp: option_button_def loadQuestion_fields split: option.splits)
  have i4: "length (optionsContainer ?st') = length (question_o (current ?st'))
            \<and> (\<forall>k < length (optionsContainer ?st'). \<forall>i a.
                  listener (optionsContainer ?st' ! k) = Some (i, a) \<longrightarrow>
                  i = int k \<and> a = question_a (current ?st'))"
    unfolding o c by (auto simp: option_button_def split: option.splits)
  show ?thesis
    unfolding session_inv_def using r i2 i4 assms(2) by (simp add: loadQuestion_fields)
qed

lemma startQuiz_fields:
  "score (startQuiz rnd st) = 0"
  "answeredQuestions (startQuiz rnd st) = []"
  "currentQuestionIndex (startQuiz rnd st) = 0"
  "allQuestions (startQuiz rnd st) = allQuestions st"
  "alerts (startQuiz rnd st) = alerts st"
  "jumpInput_value (startQuiz rnd st) = jumpInput_value st"
  "currentQuestions (startQuiz rnd st) = length (store st)"
  "store (startQuiz rnd st) =
     shuffle_loop rnd (length (store st)) (length (bank st) - 1) (store st @ [bank st])"
  by (simp_all add: startQuiz_def spread_copy_def shuffleArray_def Let_def
        loadQuestion_fields bank_def)

lemma startQuiz_inv: "session_inv (startQuiz rnd st)"
proof -
  define st1 where "st1 = st\<lparr>store := snd (shuffleArray rnd (length (store st)) (store st @ [bank st])),
      currentQuestions := length (store st),
      currentQuestionIndex := 0, score := 0, answeredQuestions := []\<rparr>"
  have s: "startQuiz rnd st = loadQuestion (currentQuestionIndex st1) st1"
    by (simp add: startQuiz_def spread_copy_def shuffleArray_def Let_def st1_def bank_def)
  have f: "score st1 = 0" "answeredQuestions st1 = []" "currentQuestionIndex st1 = 0"
    by (simp_all add: st1_def)
  show ?thesis
  proof (cases "in_range st1")
    case True
    then show ?thesis
      unfolding s by (rule loadQuestion_inv) (simp add: f correct_count_Nil)
  next
    case False
    then have "loadQuestion (currentQuestionIndex st1) st1 = st1"
      by (rule loadQuestion_out)
    with False show ?thesis
      unfolding s by (simp add: session_inv_def f correct_count_Nil)
  qed
qed

lemma handleOptionClick_inv:
  assumes "session_inv st" and "map_of (answeredQuestions st) (currentQuestionIndex st) = None"
  shows "session_inv (handleOptionClick i a st)"
proof -
  let ?st' = "handleOptionClick i a st"
  have u: "answeredQuestions ?st' =
      answeredQuestions st @ [(currentQuestionIndex st, \<lparr>selected = i, correct = a\<rparr>)]"
    by (simp add: handleOptionClick_def update_fresh [OF assms(2)])
  have sc: "score ?st' = correct_count (answeredQuestions ?st')"
    using assms(1) unfolding u correct_count_snoc
    by (simp add: handleOptionClick_def session_inv_def)
  have q: "in_range ?st' = in_range st" "current ?st' = current st"
    "currentQuestionIndex ?st' = currentQuestionIndex st"
    by (simp_all add: handleOptionClick_def in_range_def current_def questions_def)
  have o: "optionsContainer ?st' = map (\<lambda>btn. btn\<lparr>disabled := True\<rparr>) (optionsContainer st)"
    by (simp add: handleOptionClick_def)
  show ?thesis
    unfolding session_inv_def q o using assms(1) sc
    by (auto simp: session_inv_def)
qed

lemma click_option_inv:
  assumes "session_inv st"
  shows "session_inv (click_option k st)"
proof (cases "click_option k st = st")
  case True
  with assms show ?thesis by simp
next
  case False
  then obtain i a where k: "0 \<le> k" "k < int (length (optionsContainer st))"
      and b: "\<not> disabled (optionsContainer st ! nat k)"
        "listener (optionsContainer st ! nat k) = Some (i, a)"
      and c: "click_option k st = handleOptionClick i a st"
    by (auto simp: click_option_def Let_def split: if_splits option.splits)
  from k have "optionsContainer st ! nat k \<in> set (optionsContainer st)"
    by simp
  with assms b have "map_of (answeredQuestions st) (currentQuestionIndex st) = None"
    unfolding session_inv_def by auto
  with assms show ?thesis
    unfolding c by (rule handleOptionClick_inv)
qed

lemma move_inv:
  assumes "session_inv st" and "0 \<le> n" and "n < int (length (questions st))"
  shows "session_inv (loadQuestion n (st\<lparr>currentQuestionIndex := n\<rparr>))"
proof -
  let ?st1 = "st\<lparr>currentQuestionIndex := n\<rparr>"
  have "in_range ?st1"
    using assms(2,3) by (simp add: in_range_def questions_def)
  moreover have "score ?st1 = correct_count (answeredQuestions ?st1)"
    using assms(1) by (simp add: session_inv_def)
  ultimately have "session_inv (loadQuestion (currentQuestionIndex ?st1) ?st1)"
    by (rule loadQuestion_inv)
  then show ?thesis by simp
qed

lemma frame_inv:
  assumes "session_inv st"
  shows "session_inv (st\<lparr>jumpInput_value := s\<rparr>)"
    and "session_inv (st\<lparr>alerts := al\<rparr>)"
proof -
  have "in_range (st\<lparr>jumpInput_value := s\<rparr>) = in_range st"
    "current (st\<lparr>jumpInput_value := s\<rparr>) = current st"
    by (simp_all add: in_range_def current_def questions_def)
  then show "session_inv (st\<lparr>jumpInput_value := s\<rparr>)"
    using assms unfolding session_inv_def by simp
  have "in_range (st\<lparr>alerts := al\<rparr>) = in_range st"
    "current (st\<lparr>alerts := al\<rparr>) = current st"
    by (simp_all add: in_range_def current_def questions_def)
  then show "session_inv (st\<lparr>alerts := al\<rparr>)"
    using assms unfolding session_inv_def by simp
qed

lemma nextQuestion_inv:
  assumes "session_inv st"
  shows "session_inv (nextQuestion st)"
proof (cases "currentQuestionIndex st < int (length (questions st)) - 1")
  case True
  from assms have "currentQuestionIndex st = 0 \<or> in_range st"
    by (simp add: session_inv_def)
  then have "0 \<le> currentQuestionIndex st + 1"
    by (auto simp: in_range_def)
  moreover from True have "currentQuestionIndex st + 1 < int (length (questions st))"
    by simp
  ultimately have "session_inv (loadQuestion (currentQuestionIndex st + 1)
      (st\<lparr>currentQuestionIndex := currentQuestionIndex st + 1\<rparr>))"
    by (rule move_inv [OF assms])
  with True show ?thesis
    by (simp add: nextQuestion_def Let_def)
next
  case False
  with assms show ?thesis by (simp add: nextQuestion_def)
qed

lemma prevQuestion_inv:
  assumes "session_inv st"
  shows "session_inv (prevQuestion st)"
proof (cases "currentQuestionIndex st > 0")
  case True
  from assms have "currentQuestionIndex st = 0 \<or> in_range st"
    by (simp add: session_inv_def)
  with True have "currentQuestionIndex st - 1 < int (length (questions st))"
    by (auto simp: in_range_def)
  moreover from True have "0 \<le> currentQuestionIndex st - 1"
    by simp
  ultimately have "session_inv (loadQuestion (currentQuestionIndex st - 1)
      (st\<lparr>currentQuestionIndex := currentQuestionIndex st - 1\<rparr>))"
    by (intro move_inv [OF assms])
  with True show ?thesis
    by (simp add: prevQuestion_def Let_def)
next
  case False
  with assms show ?thesis by (simp add: prevQuestion_def)
qed

lemma jumpToQuestion_inv:
  assumes "session_inv st"
  shows "session_inv (jumpToQuestion st)"
proof (cases "\<exists>n. parseInt (jumpInput_value st) = Some n \<and> 1 \<le> n \<and> n \<le> int (length (questions st))")
  case True
  then obtain n where n: "parseInt (jumpInput_value st) = Some n" "1 \<le> n"
      "n \<le> int (length (questions st))"
    by blast
  have "session_inv (loadQuestion (n - 1) (st\<lparr>currentQuestionIndex := n - 1\<rparr>))"
    using n(2,3) by (intro move_inv [OF assms]) simp_all
  then have "session_inv ((loadQuestion (n - 1) (st\<lparr>currentQuestionIndex := n - 1\<rparr>))\<lparr>jumpInput_value := ''''\<rparr>)"
    by (rule frame_inv)
  with n show ?thesis
    by (simp add: jumpToQuestion_def Let_def)
next
  case False
  then have "\<not> (case parseInt (jumpInput_value st) of None \<Rightarrow> False
          | Some n \<Rightarrow> n \<ge> 1 \<and> n \<le> int (length (questions st)))"
    by (cases "parseInt (jumpInput_value st)") simp_all
  then have "jumpToQuestion st =
      st\<lparr>alerts := alerts st @ [EnterNumberBetween 1 (int (length (questions st)))]\<rparr>"
    by (simp add: jumpToQuestion_def Let_def)
  with assms show ?thesis
    by (simp add: frame_inv)
qed

lemma reachable_inv: "reachable st \<Longrightarrow> session_inv st"
proof (induction rule: reachable.induct)
  case (loaded rnd qs)
  show ?case by (rule startQuiz_inv)
next
  case (shuffle st rnd)
  show ?case by (rule startQuiz_inv)
next
  case (option st k)
  then show ?case by (simp add: click_option_inv)
next
  case (go_next st)
  then show ?case by (simp add: click_next_def nextQuestion_inv)
next
  case (go_prev st)
  then show ?case by (simp add: click_prev_def prevQuestion_inv)
next
  case (jump st)
  then show ?case by (simp add: jumpToQuestion_inv)
next
  case (typed st s)
  then show ?case by (simp add: frame_inv)
next
  case (keyup st key)
  then show ?case by (simp add: keyup_jump_def jumpToQuestion_inv)
qed

lemma session_inv_score:
  "session_inv st \<Longrightarrow> score st = correct_count (answeredQuestions st)"
  by (simp add: session_inv_def)

lemma session_inv_enabled:
  assumes "session_inv st" and "btn \<in> set (optionsContainer st)"
    and "\<not> disabled btn" and "listener btn \<noteq> None"
  shows "map_of (answeredQuestions st) (currentQuestionIndex st) = None"
proof -
  from assms(1) have "\<forall>btn \<in> set (optionsContainer st).
            \<not> disabled btn \<and> listener btn \<noteq> None \<longrightarrow>
            map_of (answeredQuestions st) (currentQuestionIndex st) = None"
    unfolding session_inv_def by (elim conjE)
  with assms(2-4) show ?thesis
    by blast
qed

lemma session_inv_length:
  assumes "session_inv st" and "in_range st"
  shows "length (optionsContainer st) = length (question_o (current st))"
proof -
  from assms(1) have "in_range st \<longrightarrow>
            length (optionsContainer st) = length (question_o (current st))
            \<and> (\<forall>k < length (optionsContainer st). \<forall>i a.
                  listener (optionsContainer st ! k) = Some (i, a) \<longrightarrow>
                  i = int k \<and> a = question_a (current st))"
    unfolding session_inv_def by (elim conjE)
  with assms(2) show ?thesis
    by (elim impE conjE)
qed

lemma session_inv_listener:
  assumes "session_inv st" and "in_range st" and "k < length (optionsContainer st)"
    and "listener (optionsContainer st ! k) = Some (i, a)"
  shows "i = int k \<and> a = question_a (current st)"
proof -
  from assms(1) have "in_range st \<longrightarrow>
            length (optionsContainer st) = length (question_o (current st))
            \<and> (\<forall>k < length (optionsContainer st). \<forall>i a.
                  listener (optionsContainer st ! k) = Some (i, a) \<longrightarrow>
                  i = int k \<and> a = question_a (current st))"
    unfolding session_inv_def by (elim conjE)
  with assms(2) have "\<forall>k < length (optionsContainer st). \<forall>i a.
                  listener (optionsContainer st ! k) = Some (i, a) \<longrightarrow>
                  i = int k \<and> a = question_a (current st)"
    by (elim impE conjE)
  with assms(3,4) show ?thesis
    by blast
qed

lemma click_option_cases:
  "click_option k st = st \<or>
   (\<exists>i a. nat k < length (optionsContainer st)
      \<and> \<not> disabled (optionsContainer st ! nat k)
      \<and> listener (optionsContainer st ! nat k) = Some (i, a)
      \<and> click_option k st = handleOptionClick i a st)"
  by (auto simp: click_option_def Let_def split: if_splits option.splits)

lemma startQuiz_questions:
  "questions (startQuiz rnd st) =
     shuffle_loop rnd (length (store st)) (length (bank st) - 1) (store st @ [bank st])
       ! length (store st)"
  by (simp add: questions_def startQuiz_fields)

lemma startQuiz_bank:
  assumes "allQuestions st < length (store st)"
  shows "bank (startQuiz rnd st) = bank st"
proof -
  have "bank (startQuiz rnd st) = (store st @ [bank st]) ! allQuestions st"
    using assms by (simp add: bank_def [of "startQuiz rnd st"] startQuiz_fields shuffle_loop_other)
  also have "\<dots> = bank st"
    using assms by (simp add: nth_append bank_def)
  finally show ?thesis .
qed

lemma nextQuestion_index:
  "currentQuestionIndex (nextQuestion st) =
     (if currentQuestionIndex st < int (length (questions st)) - 1
      then currentQuestionIndex st + 1 else currentQuestionIndex st)"
  by (simp add: nextQuestion_def Let_def loadQuestion_fields)

lemma prevQuestion_index:
  "currentQuestionIndex (prevQuestion st) =
     (if currentQuestionIndex st > 0
      then currentQuestionIndex st - 1 else currentQuestionIndex st)"
  by (simp add: prevQuestion_def Let_def loadQuestion_fields)

lemma navigation_alerts:
  "alerts (nextQuestion st) = alerts st" "alerts (prevQuestion st) = alerts st"
  by (simp_all add: nextQuestion_def prevQuestion_def Let_def loadQuestion_fields)

lemma questions_index_update: "questions (st\<lparr>currentQuestionIndex := n\<rparr>) = questions st"
  by (simp add: questions_def)

lemma navigation_questions:
  "questions (nextQuestion st) = questions st" "questions (prevQuestion st) = questions st"
  by (simp_all add: nextQuestion_def prevQuestion_def Let_def loadQuestion_questions
      questions_index_update)

lemma jumpToQuestion_success:
  assumes "parseInt (jumpInput_value st) = Some n" and "1 \<le> n"
    and "n \<le> int (length (questions st))"
  shows "jumpToQuestion st =
     (loadQuestion (n - 1) (st\<lparr>currentQuestionIndex := n - 1\<rparr>))\<lparr>jumpInput_value := ''''\<rparr>"
  using assms by (simp add: jumpToQuestion_def Let_def)

lemma jumpToQuestion_failure:
  assumes "parseInt (jumpInput_value st) = None
     \<or> (parseInt (jumpInput_value st) = Some n \<and> (n < 1 \<or> int (length (questions st)) < n))"
  shows "jumpToQuestion st =
     st\<lparr>alerts := alerts st @ [EnterNumberBetween 1 (int (length (questions st)))]\<rparr>"
proof -
  from assms have "\<not> (case parseInt (jumpInput_value st) of None \<Rightarrow> False
          | Some n \<Rightarrow> n \<ge> 1 \<and> n \<le> int (length (questions st)))"
    by (cases "parseInt (jumpInput_value st)") auto
  then show ?thesis
    by (simp add: jumpToQuestion_def Let_def)
qed

lemma reachable_in_range:
  assumes "reachable st" and "questions st \<noteq> []"
  shows "in_range st"
proof -
  from assms(1) have "session_inv st"
    by (rule reachable_inv)
  then have "currentQuestionIndex st = 0 \<or> in_range st"
    unfolding session_inv_def by (elim conjE)
  then show ?thesis
  proof
    assume "currentQuestionIndex st = 0"
    with assms(2) show ?thesis
      by (simp add: in_range_def)
  qed
qed

lemma handleOptionClick_store:
  "store (handleOptionClick i a st) = store st"
  "allQuestions (handleOptionClick i a st) = allQuestions st"
  by (simp_all add: handleOptionClick_def)

lemma click_option_store:
  "store (click_option k st) = store st \<and> allQuestions (click_option k st) = allQuestions st"
  using click_option_cases [of k st] by (auto simp: handleOptionClick_store)

lemma navigation_store:
  "store (nextQuestion st) = store st" "allQuestions (nextQuestion st) = allQuestions st"
  "store (prevQuestion st) = store st" "allQuestions (prevQuestion st) = allQuestions st"
  by (simp_all add: nextQuestion_def prevQuestion_def Let_def loadQuestion_fields)

lemma jumpToQuestion_store:
  "store (jumpToQuestion st) = store st \<and> allQuestions (jumpToQuestion st) = allQuestions st"
proof (cases "\<exists>n. parseInt (jumpInput_value st) = Some n \<and> 1 \<le> n \<and> n \<le> int (length (questions st))")
  case True
  then obtain n where "parseInt (jumpInput_value st) = Some n" "1 \<le> n"
      "n \<le> int (length (questions st))"
    by blast
  then show ?thesis
    by (simp add: jumpToQuestion_success loadQuestion_fields)
next
  case False
  then have "parseInt (jumpInput_value st) = None
     \<or> (parseInt (jumpInput_value st) = Some (the (parseInt (jumpInput_value st)))
        \<and> (the (parseInt (jumpInput_value st)) < 1
           \<or> int (length (questions st)) < the (parseInt (jumpInput_value st))))"
    by (cases "parseInt (jumpInput_value st)") auto
  then show ?thesis
    by (simp add: jumpToQuestion_failure)
qed

lemma reachable_bank_ref: "reachable st \<Longrightarrow> allQuestions st < length (store st)"
proof (induction rule: reachable.induct)
  case (loaded rnd qs)
  show ?case
    by (simp add: startQuiz_fields shuffle_loop_length initial_def)
next
  case (shuffle st rnd)
  then show ?case
    by (simp add: startQuiz_fields shuffle_loop_length)
next
  case (option st k)
  then show ?case
    by (simp add: click_option_store)
next
  case (go_next st)
  then show ?case
    by (simp add: click_next_def navigation_store)
next
  case (go_prev st)
  then show ?case
    by (simp add: click_prev_def navigation_store)
next
  case (jump st)
  then show ?case
    by (simp add: jumpToQuestion_store)
next
  case (typed st s)
  then show ?case
    by simp
next
  case (keyup st key)
  then show ?case
    by (simp add: keyup_jump_def jumpToQuestion_store)
qed

subsection \<open>The concrete quiz, evaluated\<close>

lemma random_contract_zero: "random_contract zero_rnd"
  by (simp add: random_contract_def is_double_def below_one_iff zero_rnd_def)

lemma random_index_zero: "random_index zero_rnd i = 0"
  by (simp add: random_index_def double_times_def double_floor_def zero_rnd_def)

lemma random_contract_third: "random_contract third_rnd"
  by (simp add: random_contract_def is_double_def below_one_iff third_rnd_def)

lemma bit_length_sample: "bit_length 18014398509481983 = 54"
  by (simp add: bit_length.simps)

lemma random_index_third:
  "random_index third_rnd (Suc (Suc 0)) = Suc 0" "random_index third_rnd (Suc 0) = Suc 0"
  by (simp_all add: random_index_def third_rnd_def double_times_def double_floor_def
      round_shift_def bit_length_sample Let_def)

text \<open>
  Two products that fall midway between two doubles: \<open>0.3333333333333333 * 3\<close> goes up
  to the even mantissa (the double 1), \<open>0.6666666666666667 * 3\<close> goes down to the even
  mantissa (the double 2).
\<close>

lemma double_times_tie_up:
  "double_times \<lparr>mantissa = 6004799503160661, exponent = - 54\<rparr> 3
     = \<lparr>mantissa = 9007199254740992, exponent = - 53\<rparr>"
  by (simp add: double_times_def round_shift_def bit_length_sample Let_def)

lemma bit_length_sample2: "bit_length 9007199254740993 = 54"
  by (simp add: bit_length.simps)

lemma double_times_tie_down:
  "double_times \<lparr>mantissa = 3002399751580331, exponent = - 52\<rparr> 3
     = \<lparr>mantissa = 4503599627370496, exponent = - 51\<rparr>"
  by (simp add: double_times_def round_shift_def bit_length_sample2 Let_def)

lemma exact_floor_third: "nat \<lfloor>double_value (third_rnd 2) * 3\<rfloor> = 0"
  by (simp add: third_rnd_def double_value_def)

lemma quiz3_value:
  "quiz3 =
     \<lparr>store = [[Q0, Q1, Q2], [], [Q1, Q2, Q0]], allQuestions = 0, currentQuestions = 2,
      currentQuestionIndex = 0, score = 0, answeredQuestions = [],
      optionsContainer =
        [\<lparr>disabled = False, listener = Some (0, 0)\<rparr>,
         \<lparr>disabled = False, listener = Some (1, 0)\<rparr>,
         \<lparr>disabled = False, listener = Some (2, 0)\<rparr>],
      prevBtn_disabled = True, nextBtn_disabled = False,
      jumpInput_value = '''', alerts = []\<rparr>"
  by (simp add: quiz3_def startQuiz_def initial_def spread_copy_def shuffleArray_def
      random_index_zero loadQuestion_def questions_def option_button_def
      Let_def numeral_2_eq_2 numeral_3_eq_3 Q0_def Q1_def Q2_def)

lemma answered1_value:
  "answered1 =
     \<lparr>store = [[Q0, Q1, Q2], [], [Q1, Q2, Q0]], allQuestions = 0, currentQuestions = 2,
      currentQuestionIndex = 0, score = 1,
      answeredQuestions = [(0, \<lparr>selected = 0, correct = 0\<rparr>)],
      optionsContainer =
        [\<lparr>disabled = True, listener = Some (0, 0)\<rparr>,
         \<lparr>disabled = True, listener = Some (1, 0)\<rparr>,
         \<lparr>disabled = True, listener = Some (2, 0)\<rparr>],
      prevBtn_disabled = True, nextBtn_disabled = False,
      jumpInput_value = '''', alerts = []\<rparr>"
  by (simp add: answered1_def quiz3_value click_option_def handleOptionClick_def)

lemma reachable_quiz3: "reachable quiz3"
  unfolding quiz3_def by (rule reachable.loaded [OF random_contract_zero])

lemma reachable_answered1: "reachable answered1"
  unfolding answered1_def by (rule reachable.option [OF reachable_quiz3])

lemma quiz3_questions: "currentQuestionIndex quiz3 = 0" "length (questions quiz3) = 3"
  by (simp_all add: questions_def quiz3_value)

lemma last3_index: "currentQuestionIndex last3 = 2" "length (questions last3) = 3"
proof -
  show "currentQuestionIndex last3 = 2"
    unfolding last3_def by (simp add: nextQuestion_index navigation_questions quiz3_questions)
  show "length (questions last3) = 3"
    unfolding last3_def by (simp add: navigation_questions quiz3_questions)
qed

lemma parseInt_examples:
  "parseInt ''3'' = Some 3" "parseInt ''5'' = Some 5" "parseInt ''2.5'' = Some 2"
  "parseInt ''abc'' = None" "parseInt '''' = None"
  by (simp_all add: parseInt_def StrWhiteSpaceChar_def radix_digit_def digit_value_def
      digits_value_def Let_def)


lemma third_restart: "questions (startQuiz third_rnd answered1) = [Q0, Q2, Q1]"
  by (simp add: startQuiz_questions answered1_value bank_def random_index_third Let_def
      numeral_2_eq_2 numeral_3_eq_3)

section \<open>The claims\<close>

text \<open>
  C1. In every state the page can reach (the quiz started at load, then any sequence of
  shuffle, option, next, previous and jump events), \<open>score\<close> is the number of
  entries of \<open>answeredQuestions\<close> whose \<open>selected\<close> equals their \<open>correct\<close>.
  \<open>handleOptionClick\<close> counts incrementally and has no guard of its own; the count
  stays right because a click disables every option button and \<open>loadQuestion\<close> gives
  no listener to the buttons of an answered question.
\<close>

theorem score_is_recount:
  "reachable st \<Longrightarrow> score st = correct_count (answeredQuestions st)"
  using reachable_inv [of st] by (simp add: session_inv_def)

theorem score_is_recount_witness:
  "reachable answered1 \<and> score answered1 = 1 \<and> correct_count (answeredQuestions answered1) = 1"
proof -
  have s: "score answered1 = 1"
    by (simp add: answered1_value)
  from score_is_recount [OF reachable_answered1] s
  have "correct_count (answeredQuestions answered1) = 1"
    by simp
  with reachable_answered1 s show ?thesis
    by simp
qed



text \<open>
  C2 (as the script has it). The script has no \<open>AlreadyAnswered\<close>: nothing is signalled
  when an answered question is clicked again, and \<open>handleOptionClick\<close> has no guard of
  its own. The guard is the page. In every reachable state whose current question has an
  answer, no option button is both enabled and listening, so a click on any option
  runs no handler and the whole state, \<open>answeredQuestions\<close> and \<open>score\<close> included, is
  as before.
\<close>

theorem answered_click_ignored:
  assumes "reachable st"
    and "map_of (answeredQuestions st) (currentQuestionIndex st) \<noteq> None"
  shows "click_option k st = st"
proof (rule ccontr)
  assume "click_option k st \<noteq> st"
  with click_option_cases [of k st] obtain i a
    where k: "nat k < length (optionsContainer st)"
      and b: "\<not> disabled (optionsContainer st ! nat k)"
        "listener (optionsContainer st ! nat k) = Some (i, a)"
    by blast
  from k have m: "optionsContainer st ! nat k \<in> set (optionsContainer st)"
    by (rule nth_mem)
  from assms(1) have inv: "session_inv st"
    by (rule reachable_inv)
  from b(2) have "listener (optionsContainer st ! nat k) \<noteq> None"
    by simp
  from session_inv_enabled [OF inv m b(1) this] assms(2) show False
    by simp
qed

theorem answered_click_ignored_witness:
  "reachable answered1
   \<and> map_of (answeredQuestions answered1) (currentQuestionIndex answered1) \<noteq> None
   \<and> click_option 1 answered1 = answered1"
proof -
  have a: "map_of (answeredQuestions answered1) (currentQuestionIndex answered1) \<noteq> None"
    by (simp add: answered1_value)
  from answered_click_ignored [OF reachable_answered1 a, of 1] reachable_answered1 a
  show ?thesis
    by simp
qed

text \<open>
  C2 as stated fails on \<open>handleOptionClick\<close>: called at a state whose current question
  (index 0) holds the answer \<open>{selected: 0, correct: 0}\<close>, it replaces the record by the
  new one, it counts a right answer a second time (the score goes from 1 to 2), and it
  signals nothing. A click on a button of that state signals nothing either.
\<close>

theorem second_answer_counterexample:
  "map_of (answeredQuestions answered1) (currentQuestionIndex answered1)
     = Some \<lparr>selected = 0, correct = 0\<rparr>
   \<and> map_of (answeredQuestions (handleOptionClick 2 0 answered1)) (currentQuestionIndex answered1)
     = Some \<lparr>selected = 2, correct = 0\<rparr>
   \<and> score answered1 = 1
   \<and> score (handleOptionClick 0 0 answered1) = 2
   \<and> alerts (handleOptionClick 0 0 answered1) = []
   \<and> alerts (click_option 0 answered1) = []"
  by (simp add: answered1_value handleOptionClick_def click_option_def)

text \<open>
  C5 (as the script has it). The script has no \<open>InvalidOption\<close> and
  \<open>handleOptionClick\<close> checks no range. The page offers exactly one button per option
  of the current question; in every reachable state with a current question, a click at a
  position outside \<open>[0, options.length)\<close> meets no button and leaves the state as it is,
  and every listener passes its own position, a number within that range, as
  \<open>selectedIndex\<close>.
\<close>

theorem click_outside_options_ignored:
  assumes "reachable st" and "in_range st"
  shows "(k < 0 \<or> int (length (question_o (current st))) \<le> k \<longrightarrow> click_option k st = st)
       \<and> (\<forall>j i a. j < length (optionsContainer st)
              \<and> listener (optionsContainer st ! j) = Some (i, a) \<longrightarrow>
              i = int j \<and> 0 \<le> i \<and> i < int (length (question_o (current st))))"
proof -
  from assms(1) have inv: "session_inv st"
    by (rule reachable_inv)
  have len: "length (optionsContainer st) = length (question_o (current st))"
    by (rule session_inv_length [OF inv assms(2)])
  have out: "k < 0 \<or> int (length (question_o (current st))) \<le> k \<longrightarrow> click_option k st = st"
  proof
    assume "k < 0 \<or> int (length (question_o (current st))) \<le> k"
    then have "\<not> (0 \<le> k \<and> k < int (length (optionsContainer st)))"
      unfolding len by auto
    then show "click_option k st = st"
      unfolding click_option_def by (rule if_not_P)
  qed
  have lis: "i = int j \<and> 0 \<le> i \<and> i < int (length (question_o (current st)))"
    if "j < length (optionsContainer st)" "listener (optionsContainer st ! j) = Some (i, a)"
    for j i a
    using session_inv_listener [OF inv assms(2) that] that(1) len by simp
  from out lis show ?thesis
    by blast
qed

theorem click_outside_options_ignored_witness:
  "reachable quiz3 \<and> in_range quiz3 \<and> length (question_o (current quiz3)) = 3
   \<and> click_option 3 quiz3 = quiz3 \<and> click_option (- 1) quiz3 = quiz3
   \<and> listener (optionsContainer quiz3 ! 2) = Some (2, 0)"
proof -
  have r: "in_range quiz3"
    by (simp add: in_range_def questions_def quiz3_value)
  have l: "length (question_o (current quiz3)) = 3"
    by (simp add: current_def questions_def quiz3_value Q1_def)
  have v: "listener (optionsContainer quiz3 ! 2) = Some (2, 0)"
    by (simp add: quiz3_value)
  from click_outside_options_ignored [OF reachable_quiz3 r, of 3]
    click_outside_options_ignored [OF reachable_quiz3 r, of "- 1"] reachable_quiz3 r l v
  show ?thesis
    by simp
qed

text \<open>
  C5 as stated fails on \<open>handleOptionClick\<close>: with \<open>selectedIndex = 7\<close> on a question
  of three options it stores the answer \<open>{selected: 7, correct: 0}\<close> and signals
  nothing. A click at position 7 signals nothing either.
\<close>

theorem unchecked_option_counterexample:
  "length (question_o (current quiz3)) = 3
   \<and> answeredQuestions quiz3 = []
   \<and> answeredQuestions (handleOptionClick 7 0 quiz3) = [(0, \<lparr>selected = 7, correct = 0\<rparr>)]
   \<and> alerts (handleOptionClick 7 0 quiz3) = []
   \<and> alerts (click_option 7 quiz3) = []"
  by (simp add: current_def questions_def quiz3_value Q1_def handleOptionClick_def
      click_option_def)

text \<open>
  C3. Under the contract of \<open>Math.random()\<close>, \<open>startQuiz\<close> called in any state, also
  one with recorded answers and a score, leaves \<open>currentQuestions\<close> a permutation of
  the bank (the same elements with the same multiplicities, the same length),
  \<open>currentQuestionIndex\<close> 0, \<open>answeredQuestions\<close> empty and \<open>score\<close> 0. This holds for
  every bank, so for every non-empty one.
\<close>

theorem startQuiz_resets:
  assumes "random_contract rnd"
  shows "mset (questions (startQuiz rnd st)) = mset (bank st)
       \<and> length (questions (startQuiz rnd st)) = length (bank st)
       \<and> currentQuestionIndex (startQuiz rnd st) = 0
       \<and> answeredQuestions (startQuiz rnd st) = []
       \<and> score (startQuiz rnd st) = 0"
proof -
  let ?h = "store st @ [bank st]"
  have c: "?h ! length (store st) = bank st"
    by simp
  have "length (store st) < length ?h"
    by simp
  from shuffle_whole_mset [OF assms this]
  have m: "mset (questions (startQuiz rnd st)) = mset (bank st)"
    unfolding c startQuiz_questions .
  then have "size (mset (questions (startQuiz rnd st))) = size (mset (bank st))"
    by simp
  then have "length (questions (startQuiz rnd st)) = length (bank st)"
    by simp
  with m show ?thesis
    by (simp add: startQuiz_fields)
qed

theorem startQuiz_resets_witness:
  "random_contract third_rnd \<and> score answered1 = 1
   \<and> answeredQuestions answered1 = [(0, \<lparr>selected = 0, correct = 0\<rparr>)]
   \<and> bank answered1 = [Q0, Q1, Q2]
   \<and> questions (startQuiz third_rnd answered1) = [Q0, Q2, Q1]
   \<and> mset (questions (startQuiz third_rnd answered1)) = mset [Q0, Q1, Q2]
   \<and> length (questions (startQuiz third_rnd answered1)) = 3
   \<and> currentQuestionIndex (startQuiz third_rnd answered1) = 0
   \<and> answeredQuestions (startQuiz third_rnd answered1) = []
   \<and> score (startQuiz third_rnd answered1) = 0"
proof -
  have b: "bank answered1 = [Q0, Q1, Q2]"
    by (simp add: bank_def answered1_value)
  have s: "score answered1 = 1" "answeredQuestions answered1 = [(0, \<lparr>selected = 0, correct = 0\<rparr>)]"
    by (simp_all add: answered1_value)
  from startQuiz_resets [OF random_contract_third, of answered1] random_contract_third b s
    third_restart
  show ?thesis
    by simp
qed

text \<open>
  C10. \<open>startQuiz\<close> never modifies the bank: it hands a spread copy to the in-place
  shuffle, so after the call the array \<open>allQuestions\<close> refers to holds the same elements
  in the same order, \<open>allQuestions\<close> still refers to it, and \<open>currentQuestions\<close> refers
  to another array. The hypothesis says that \<open>allQuestions\<close> refers to an array of the
  store, which is so in every reachable state (\<open>reachable_bank_ref\<close>).
\<close>

theorem startQuiz_keeps_bank:
  assumes "allQuestions st < length (store st)"
  shows "bank (startQuiz rnd st) = bank st
       \<and> allQuestions (startQuiz rnd st) = allQuestions st
       \<and> currentQuestions (startQuiz rnd st) \<noteq> allQuestions st"
  using assms by (simp add: startQuiz_bank startQuiz_fields)

theorem startQuiz_keeps_bank_witness:
  "allQuestions (initial [Q0, Q1, Q2]) < length (store (initial [Q0, Q1, Q2]))
   \<and> bank (initial [Q0, Q1, Q2]) = [Q0, Q1, Q2]
   \<and> bank (startQuiz zero_rnd (initial [Q0, Q1, Q2])) = [Q0, Q1, Q2]
   \<and> questions (startQuiz zero_rnd (initial [Q0, Q1, Q2])) = [Q1, Q2, Q0]"
proof -
  have l: "allQuestions (initial [Q0, Q1, Q2]) < length (store (initial [Q0, Q1, Q2]))"
    by (simp add: initial_def)
  have b: "bank (initial [Q0, Q1, Q2]) = [Q0, Q1, Q2]"
    by (simp add: bank_def initial_def)
  have q: "questions (startQuiz zero_rnd (initial [Q0, Q1, Q2])) = [Q1, Q2, Q0]"
    using quiz3_value by (simp add: quiz3_def questions_def)
  from startQuiz_keeps_bank [OF l, of zero_rnd] l b q show ?thesis
    by simp
qed

text \<open>
  C7 (as the script has it). The script has no \<open>EmptyBank\<close>: \<open>startQuiz\<close> on an empty
  bank signals nothing. It sets \<open>currentQuestions\<close> to a new empty array,
  \<open>currentQuestionIndex\<close> to 0, \<open>score\<close> to 0 and clears \<open>answeredQuestions\<close>, as for
  any bank; the range check of \<open>loadQuestion\<close> then returns before anything is
  rendered, so the option buttons stay as they were.
\<close>

theorem startQuiz_empty_bank:
  assumes "bank st = []"
  shows "alerts (startQuiz rnd st) = alerts st
       \<and> questions (startQuiz rnd st) = []
       \<and> currentQuestionIndex (startQuiz rnd st) = 0
       \<and> score (startQuiz rnd st) = 0
       \<and> answeredQuestions (startQuiz rnd st) = []
       \<and> optionsContainer (startQuiz rnd st) = optionsContainer st"
proof -
  have q: "questions (startQuiz rnd st) = []"
    unfolding startQuiz_questions by (simp add: assms)
  have "optionsContainer (startQuiz rnd st) = optionsContainer st"
    using assms
    by (simp add: startQuiz_def spread_copy_def shuffleArray_def Let_def loadQuestion_def
        questions_def bank_def)
  with q show ?thesis
    by (simp add: startQuiz_fields)
qed

theorem startQuiz_empty_bank_witness:
  "bank (initial []) = []
   \<and> alerts (startQuiz zero_rnd (initial [])) = alerts (initial [])
   \<and> questions (startQuiz zero_rnd (initial [])) = []
   \<and> score (startQuiz zero_rnd (initial [])) = 0"
proof -
  have b: "bank (initial []) = []"
    by (simp add: bank_def initial_def)
  from startQuiz_empty_bank [OF b, of zero_rnd] b show ?thesis
    by simp
qed

text \<open>
  C7 as stated fails at the load of a page whose bank is empty: no alert is shown, and the
  session is set up (a fresh empty array is stored and \<open>currentQuestions\<close> refers to
  it).
\<close>

theorem empty_bank_counterexample:
  "bank (initial []) = []
   \<and> alerts (startQuiz zero_rnd (initial [])) = []
   \<and> currentQuestions (initial []) = 1
   \<and> currentQuestions (startQuiz zero_rnd (initial [])) = 2
   \<and> store (startQuiz zero_rnd (initial [])) = [[], [], []]"
  by (simp add: bank_def initial_def startQuiz_fields)

text \<open>
  C9 (as the script has it). \<open>shuffleArray\<close> makes no copy: it returns the reference it
  was given, allocates nothing, and changes no other array of the store. What it permutes
  is the caller's array itself; the copy is made by the caller, \<open>startQuiz\<close>.
\<close>

theorem shuffleArray_in_place:
  "fst (shuffleArray rnd array h) = array
   \<and> length (snd (shuffleArray rnd array h)) = length h
   \<and> (\<forall>b. b \<noteq> array \<longrightarrow> snd (shuffleArray rnd array h) ! b = h ! b)"
  by (simp add: shuffleArray_def shuffle_loop_length shuffle_loop_other)

theorem shuffleArray_in_place_witness:
  "fst (shuffleArray zero_rnd 1 [[Q0, Q1], [Q0, Q1]]) = 1
   \<and> snd (shuffleArray zero_rnd 1 [[Q0, Q1], [Q0, Q1]]) ! 0 = [Q0, Q1]
   \<and> snd (shuffleArray zero_rnd 1 [[Q0, Q1], [Q0, Q1]]) ! 1 = [Q1, Q0]"
proof -
  have v: "snd (shuffleArray zero_rnd 1 [[Q0, Q1], [Q0, Q1]]) ! 1 = [Q1, Q0]"
    by (simp add: shuffleArray_def random_index_zero Let_def)
  from shuffleArray_in_place [of zero_rnd 1 "[[Q0, Q1], [Q0, Q1]]"] v show ?thesis
    by simp
qed

text \<open>
  C9 as stated fails on \<open>shuffleArray\<close>: the array \<open>[Q0, Q1]\<close> passed at reference 0
  holds \<open>[Q1, Q0]\<close> after the call.
\<close>

theorem shuffle_mutates_counterexample:
  "[[Q0, Q1]] ! 0 = [Q0, Q1]
   \<and> fst (shuffleArray zero_rnd 0 [[Q0, Q1]]) = 0
   \<and> snd (shuffleArray zero_rnd 0 [[Q0, Q1]]) ! 0 = [Q1, Q0]
   \<and> [Q1, Q0] \<noteq> [Q0, Q1]"
  by (simp add: shuffleArray_def random_index_zero Let_def Q0_def Q1_def)

text \<open>
  C6. In a state whose current index points at a question, \<open>nextQuestion\<close> adds
  exactly 1 to \<open>currentQuestionIndex\<close> unless it is the last index, and
  \<open>prevQuestion\<close> subtracts exactly 1 unless it is 0; at those two boundaries the call
  changes nothing at all. Neither function shows an alert. The hypothesis holds in every
  reachable state of a quiz that has a question (\<open>reachable_in_range\<close>).
\<close>

theorem navigation_clamped:
  assumes "in_range st"
  shows "currentQuestionIndex (nextQuestion st) =
           (if currentQuestionIndex st = int (length (questions st)) - 1
            then currentQuestionIndex st else currentQuestionIndex st + 1)
       \<and> currentQuestionIndex (prevQuestion st) =
           (if currentQuestionIndex st = 0
            then currentQuestionIndex st else currentQuestionIndex st - 1)
       \<and> (currentQuestionIndex st = int (length (questions st)) - 1 \<longrightarrow> nextQuestion st = st)
       \<and> (currentQuestionIndex st = 0 \<longrightarrow> prevQuestion st = st)
       \<and> alerts (nextQuestion st) = alerts st
       \<and> alerts (prevQuestion st) = alerts st"
proof -
  from assms have r: "0 \<le> currentQuestionIndex st"
      "currentQuestionIndex st < int (length (questions st))"
    by (simp_all add: in_range_def)
  have n: "currentQuestionIndex (nextQuestion st) =
           (if currentQuestionIndex st = int (length (questions st)) - 1
            then currentQuestionIndex st else currentQuestionIndex st + 1)"
    unfolding nextQuestion_index using r(2) by simp
  have p: "currentQuestionIndex (prevQuestion st) =
           (if currentQuestionIndex st = 0
            then currentQuestionIndex st else currentQuestionIndex st - 1)"
    unfolding prevQuestion_index using r(1) by simp
  have nn: "currentQuestionIndex st = int (length (questions st)) - 1 \<longrightarrow> nextQuestion st = st"
    by (simp add: nextQuestion_def)
  have pn: "currentQuestionIndex st = 0 \<longrightarrow> prevQuestion st = st"
    by (simp add: prevQuestion_def)
  from n p nn pn show ?thesis
    by (simp add: navigation_alerts)
qed

theorem navigation_clamped_witness:
  "in_range quiz3 \<and> in_range last3
   \<and> currentQuestionIndex quiz3 = 0 \<and> length (questions quiz3) = 3
   \<and> currentQuestionIndex (nextQuestion quiz3) = 1
   \<and> prevQuestion quiz3 = quiz3
   \<and> currentQuestionIndex last3 = 2 \<and> length (questions last3) = 3
   \<and> nextQuestion last3 = last3
   \<and> currentQuestionIndex (prevQuestion last3) = 1"
proof -
  note q = quiz3_questions
  note l = last3_index
  have r: "in_range quiz3" "in_range last3"
    by (simp_all add: in_range_def q l)
  from navigation_clamped [OF r(1)] navigation_clamped [OF r(2)] q l r show ?thesis
    by simp
qed

text \<open>
  C4 (as the script has it). With \<open>n\<close> the number \<open>parseInt\<close> reads from the jump
  input: when \<open>1 \<le> n \<le> currentQuestions.length\<close>, \<open>jumpToQuestion\<close> sets
  \<open>currentQuestionIndex\<close> to \<open>n - 1\<close> and shows no alert (score, answers and the
  question order are untouched); when \<open>n\<close> is out of that range, or \<open>parseInt\<close> reads
  no number at all (\<open>NaN\<close>), the state is unchanged but for the alert shown, whose text
  names the range from 1 to \<open>currentQuestions.length\<close>.
\<close>

theorem jumpToQuestion_outcome:
  "(parseInt (jumpInput_value st) = Some n \<and> 1 \<le> n \<and> n \<le> int (length (questions st)) \<longrightarrow>
      currentQuestionIndex (jumpToQuestion st) = n - 1
      \<and> alerts (jumpToQuestion st) = alerts st
      \<and> score (jumpToQuestion st) = score st
      \<and> answeredQuestions (jumpToQuestion st) = answeredQuestions st
      \<and> questions (jumpToQuestion st) = questions st)
   \<and> (parseInt (jumpInput_value st) = None
       \<or> (parseInt (jumpInput_value st) = Some n \<and> (n < 1 \<or> int (length (questions st)) < n)) \<longrightarrow>
      jumpToQuestion st =
        st\<lparr>alerts := alerts st @ [EnterNumberBetween 1 (int (length (questions st)))]\<rparr>)"
proof (intro conjI impI)
  assume a: "parseInt (jumpInput_value st) = Some n \<and> 1 \<le> n \<and> n \<le> int (length (questions st))"
  then have j: "jumpToQuestion st =
     (loadQuestion (n - 1) (st\<lparr>currentQuestionIndex := n - 1\<rparr>))\<lparr>jumpInput_value := ''''\<rparr>"
    by (intro jumpToQuestion_success) simp_all
  show "currentQuestionIndex (jumpToQuestion st) = n - 1"
    unfolding j by (simp add: loadQuestion_fields)
  show "alerts (jumpToQuestion st) = alerts st"
    unfolding j by (simp add: loadQuestion_fields)
  show "score (jumpToQuestion st) = score st"
    unfolding j by (simp add: loadQuestion_fields)
  show "answeredQuestions (jumpToQuestion st) = answeredQuestions st"
    unfolding j by (simp add: loadQuestion_fields)
  show "questions (jumpToQuestion st) = questions st"
    unfolding j by (simp add: questions_def loadQuestion_fields)
next
  assume "parseInt (jumpInput_value st) = None
       \<or> (parseInt (jumpInput_value st) = Some n \<and> (n < 1 \<or> int (length (questions st)) < n))"
  then show "jumpToQuestion st =
        st\<lparr>alerts := alerts st @ [EnterNumberBetween 1 (int (length (questions st)))]\<rparr>"
    by (rule jumpToQuestion_failure)
qed

theorem jumpToQuestion_outcome_witness:
  "parseInt (jumpInput_value (quiz3\<lparr>jumpInput_value := ''3''\<rparr>)) = Some 3
   \<and> length (questions (quiz3\<lparr>jumpInput_value := ''3''\<rparr>)) = 3
   \<and> currentQuestionIndex (jumpToQuestion (quiz3\<lparr>jumpInput_value := ''3''\<rparr>)) = 2
   \<and> alerts (jumpToQuestion (quiz3\<lparr>jumpInput_value := ''3''\<rparr>)) = []
   \<and> parseInt (jumpInput_value (quiz3\<lparr>jumpInput_value := ''5''\<rparr>)) = Some 5
   \<and> jumpToQuestion (quiz3\<lparr>jumpInput_value := ''5''\<rparr>) =
       quiz3\<lparr>jumpInput_value := ''5'', alerts := [EnterNumberBetween 1 3]\<rparr>
   \<and> parseInt (jumpInput_value (quiz3\<lparr>jumpInput_value := ''abc''\<rparr>)) = None
   \<and> jumpToQuestion (quiz3\<lparr>jumpInput_value := ''abc''\<rparr>) =
       quiz3\<lparr>jumpInput_value := ''abc'', alerts := [EnterNumberBetween 1 3]\<rparr>"
proof -
  have l: "length (questions (quiz3\<lparr>jumpInput_value := s\<rparr>)) = 3" for s
    by (simp add: questions_def quiz3_value)
  have a: "alerts (quiz3\<lparr>jumpInput_value := s\<rparr>) = []" for s
    by (simp add: quiz3_value)
  from jumpToQuestion_outcome [of "quiz3\<lparr>jumpInput_value := ''3''\<rparr>" 3]
    jumpToQuestion_outcome [of "quiz3\<lparr>jumpInput_value := ''5''\<rparr>" 5]
    jumpToQuestion_outcome [of "quiz3\<lparr>jumpInput_value := ''abc''\<rparr>" 0]
  show ?thesis
    by (simp add: parseInt_examples l a)
qed

text \<open>
  C4 as stated counts an input that is not an integer as a failure. The script does not:
  \<open>parseInt\<close> reads \<open>2\<close> from the input \<open>2.5\<close>, and with three questions the jump
  succeeds, moving from index 0 to index 1 with no alert.
\<close>

theorem fractional_jump_counterexample:
  "parseInt ''2.5'' = Some 2
   \<and> length (questions (quiz3\<lparr>jumpInput_value := ''2.5''\<rparr>)) = 3
   \<and> currentQuestionIndex (quiz3\<lparr>jumpInput_value := ''2.5''\<rparr>) = 0
   \<and> currentQuestionIndex (jumpToQuestion (quiz3\<lparr>jumpInput_value := ''2.5''\<rparr>)) = 1
   \<and> alerts (jumpToQuestion (quiz3\<lparr>jumpInput_value := ''2.5''\<rparr>)) = []"
proof -
  have l: "length (questions (quiz3\<lparr>jumpInput_value := ''2.5''\<rparr>)) = 3"
    by (simp add: questions_def quiz3_value)
  have p: "parseInt (jumpInput_value (quiz3\<lparr>jumpInput_value := ''2.5''\<rparr>)) = Some 2"
    by (simp add: parseInt_examples)
  have j: "jumpToQuestion (quiz3\<lparr>jumpInput_value := ''2.5''\<rparr>) =
     (loadQuestion (2 - 1) (quiz3\<lparr>jumpInput_value := ''2.5'', currentQuestionIndex := 2 - 1\<rparr>))
       \<lparr>jumpInput_value := ''''\<rparr>"
    using jumpToQuestion_success [OF p] l by simp
  show ?thesis
    unfolding j using l by (simp add: parseInt_examples loadQuestion_fields quiz3_value)
qed

end
